theory Spec2Isabelle
  imports Main "HOL-Library.AList" "HOL-Library.Sublist"
begin

section \<open>Start-up: readiness polling, stream provisioning and main\<close>

text \<open>
  The start-up code of \<^verbatim>\<open>simulator.ts\<close> talks to the platform through three calls
  whose outcome the program cannot influence: \<^verbatim>\<open>connect\<close>,
  \<^verbatim>\<open>jsm.streams.list().next()\<close> and \<^verbatim>\<open>jsm.streams.add\<close>. The model takes the
  outcome of the \<open>k\<close>-th invocation of a call as a function of \<open>k\<close>, and returns, next to
  the result of a function, the list of the effects it had, in order.
\<close>

text \<open>
  A value caught by \<^verbatim>\<open>catch (e: any)\<close>. Only \<^verbatim>\<open>e.message\<close> and \<^verbatim>\<open>e.code\<close> are read;
  \<open>None\<close> stands for a field that is absent (for \<open>code\<close>: that is not a string, so
  that \<^verbatim>\<open>=== "10058"\<close> is false).
\<close>

record js_error =
  message :: "string option"
  code :: "string option"

datatype add_result = AddOk | AddErr (the_error: js_error)

datatype effect =
    StreamsList
  | StreamsAdd
  | Sleep nat
  | LogWaiting nat nat
  | LogStreamCreated
  | LogStreamExists
  | LogAttemptFailed nat "string option"
  | LogNotReady
  | LogReady
  | LogStarting nat
  | LogFatal

text \<open>\<^verbatim>\<open>String.prototype.includes\<close>: \<open>t\<close> occurs in \<open>s\<close> as a contiguous substring.\<close>

fun includes_str :: "string \<Rightarrow> string \<Rightarrow> bool" where
  "includes_str [] t = (t = [])"
| "includes_str (c # cs) t = (prefix t (c # cs) \<or> includes_str cs t)"

text \<open>
  \<^verbatim>\<open>waitForJetStream\<close>: the loop \<^verbatim>\<open>for (let i = 0; i < maxRetries; i++)\<close>, entered
  at \<open>i\<close>. \<open>probe i\<close> tells whether the invocation of
  \<^verbatim>\<open>jsm.streams.list().next()\<close> made at index \<open>i\<close> resolves (\<open>True\<close>) or throws.
\<close>

function waitForJetStream_loop :: "(nat \<Rightarrow> bool) \<Rightarrow> nat \<Rightarrow> nat \<Rightarrow> bool \<times> effect list" where
  "waitForJetStream_loop probe maxRetries i =
     (if i < maxRetries then
        (if probe i then (True, [StreamsList])
         else apsnd (\<lambda>tr. StreamsList # LogWaiting (i + 1) maxRetries # Sleep 2000 # tr)
                (waitForJetStream_loop probe maxRetries (i + 1)))
      else (False, []))"
  by pat_completeness auto
termination
  by (relation "measure (\<lambda>(probe, maxRetries, i). maxRetries - i)") auto

declare waitForJetStream_loop.simps [simp del]

definition waitForJetStream :: "(nat \<Rightarrow> bool) \<Rightarrow> nat \<Rightarrow> bool \<times> effect list" where
  "waitForJetStream probe maxRetries = waitForJetStream_loop probe maxRetries 0"

text \<open>The test of the \<^verbatim>\<open>catch\<close> block of \<^verbatim>\<open>createStream\<close>:
  \<^verbatim>\<open>e.message?.includes("already in use") || e.code === "10058"\<close>.\<close>

definition already_exists :: "js_error \<Rightarrow> bool" where
  "already_exists e =
     ((case message e of None \<Rightarrow> False | Some m \<Rightarrow> includes_str m ''already in use'')
      \<or> code e = Some ''10058'')"

text \<open>
  \<^verbatim>\<open>createStream\<close>: the loop \<^verbatim>\<open>for (let attempt = 0; attempt < 10; attempt++)\<close>,
  entered at \<open>attempt\<close>. The function returns \<^verbatim>\<open>void\<close> on every path (there is no
  \<^verbatim>\<open>throw\<close> in it and every rejection of \<^verbatim>\<open>jsm.streams.add\<close> is caught), so its
  model returns the effects only.
\<close>

function createStream_loop :: "(nat \<Rightarrow> add_result) \<Rightarrow> nat \<Rightarrow> effect list" where
  "createStream_loop add attempt =
     (if attempt < 10 then
        (case add attempt of
           AddOk \<Rightarrow> [StreamsAdd, LogStreamCreated]
         | AddErr e \<Rightarrow>
             if already_exists e then [StreamsAdd, LogStreamExists]
             else StreamsAdd # LogAttemptFailed (attempt + 1) (message e) # Sleep 3000
                    # createStream_loop add (attempt + 1))
      else [])"
  by pat_completeness auto
termination
  by (relation "measure (\<lambda>(add, attempt). 10 - attempt)") auto

declare createStream_loop.simps [simp del]

definition createStream :: "(nat \<Rightarrow> add_result) \<Rightarrow> effect list" where
  "createStream add = createStream_loop add 0"

text \<open>
  What \<^verbatim>\<open>main\<close> meets on its way to the churn: whether \<^verbatim>\<open>connect\<close> and
  \<^verbatim>\<open>nc.jetstreamManager()\<close> reject, and the outcomes of the readiness probes and of
  the stream creations.
\<close>

record platform =
  connect_fails :: bool
  jetstreamManager_fails :: bool
  streams_list :: "nat \<Rightarrow> bool"
  streams_add :: "nat \<Rightarrow> add_result"

text \<open>
  \<^verbatim>\<open>main\<close> up to the start of the consumer loops; the banner and the line that names
  the server are left out of the effects. How it leaves its start-up phase: the process exits with a code (by
  \<^verbatim>\<open>process.exit(1)\<close>, called directly or by the \<^verbatim>\<open>catch\<close> on \<^verbatim>\<open>main()\<close>),
  or the publisher timers run, or the consumer loops are started.
\<close>

datatype main_outcome = Exit nat | PublisherRunning | ConsumersStarted

definition main :: "string \<Rightarrow> nat \<Rightarrow> platform \<Rightarrow> main_outcome \<times> effect list" where
  "main MODE NUM_CONSUMERS p =
     (if connect_fails p then (Exit 1, [Sleep 10000, LogFatal])
      else if MODE = ''publisher'' then (PublisherRunning, [Sleep 10000])
      else if jetstreamManager_fails p then (Exit 1, [Sleep 10000, LogFatal])
      else
        (case waitForJetStream (streams_list p) 30 of
           (ready, tr) \<Rightarrow>
             if \<not> ready then (Exit 1, Sleep 10000 # tr @ [LogNotReady])
             else (ConsumersStarted,
                   Sleep 10000 # tr @ [LogReady] @ createStream (streams_add p)
                     @ [LogStarting NUM_CONSUMERS])))"

section \<open>The churn: consumer lifecycle loops, shared counters and the reporter\<close>

text \<open>
  The process is single-threaded: the loops started by \<^verbatim>\<open>main\<close> interleave only where
  one of them is suspended in an \<^verbatim>\<open>await\<close>. The model is a transition system whose
  steps are the pieces of code that run between two suspensions, each triggered by an
  event: a timer fires, or a call to the platform resolves or rejects.
\<close>

type_synonym JetStreamSubscription = nat

text \<open>The interface \<^verbatim>\<open>ConsumerInfo\<close> (its field \<^verbatim>\<open>id\<close> is \<open>id_field\<close> here).\<close>

record ConsumerInfo =
  id_field :: string
  subject :: string
  createdAt :: int
  subscription :: "JetStreamSubscription option"
  messageCount :: nat

text \<open>
  Where one \<^verbatim>\<open>runConsumerLoop\<close> is suspended, with its local \<^verbatim>\<open>info\<close>:
  \<^item> \<open>NotStarted\<close>: \<^verbatim>\<open>main\<close> has not called it yet;
  \<^item> \<open>Creating\<close>: in \<^verbatim>\<open>createOrderedConsumer\<close>, awaiting \<^verbatim>\<open>js.subscribe\<close>;
  \<^item> \<open>Created\<close>: \<^verbatim>\<open>createOrderedConsumer\<close> has returned \<^verbatim>\<open>info\<close>; the continuation of
    \<^verbatim>\<open>await createOrderedConsumer(...)\<close> is a queued microtask;
  \<^item> \<open>Running\<close>: in \<^verbatim>\<open>sleep(CONSUMER_LIFETIME_MS)\<close>;
  \<^item> \<open>Destroying\<close>: in \<^verbatim>\<open>closeConsumer\<close>, awaiting \<^verbatim>\<open>info.subscription.destroy()\<close>;
  \<^item> \<open>Closed\<close>: \<^verbatim>\<open>closeConsumer\<close> has returned; the continuation of
    \<^verbatim>\<open>await closeConsumer(info)\<close> is a queued microtask;
  \<^item> \<open>Cooldown\<close>: in \<^verbatim>\<open>sleep(RECONNECT_DELAY_MS)\<close>.
\<close>

datatype location =
    NotStarted
  | Creating ConsumerInfo
  | Created ConsumerInfo
  | Running ConsumerInfo
  | Destroying ConsumerInfo
  | Closed ConsumerInfo
  | Cooldown

text \<open>
  What \<^verbatim>\<open>printStats\<close> prints from the shared state. The uptime and the churn rate,
  which it also prints, are computed from the clock and are left out.
\<close>

record stats =
  stat_active :: nat
  stat_created :: nat
  stat_closed :: nat
  stat_reconnects :: nat
  stat_createErrors :: nat
  leaked :: int

datatype console_line = CreateErrorLog nat string | StatsLog stats

text \<open>
  The module-level state (\<^verbatim>\<open>activeConsumers\<close> and the four counters), the loops, the
  loop variable \<open>started\<close> of \<^verbatim>\<open>main\<close> (\<^verbatim>\<open>for (let i = 0; i < NUM_CONSUMERS; i++)\<close>)
  and the console. A JavaScript \<^verbatim>\<open>Map\<close> keeps its keys in insertion order:
  \<^verbatim>\<open>set\<close> is \<^const>\<open>AList.update\<close>, \<^verbatim>\<open>delete\<close> is \<^const>\<open>AList.delete\<close> and
  \<^verbatim>\<open>size\<close> is \<^const>\<open>length\<close>.
\<close>

record state =
  activeConsumers :: "(string \<times> ConsumerInfo) list"
  totalCreated :: nat
  totalClosed :: nat
  totalReconnects :: nat
  createErrors :: nat
  loops :: "nat \<Rightarrow> location"
  started :: nat
  NUM_CONSUMERS :: nat
  console :: "console_line list"

definition SUBJECTS :: "string list" where
  "SUBJECTS =
     [''events.sensor.station1.>'', ''events.sensor.station2.>'', ''events.sensor.station3.>'',
      ''events.telemetry.module1.>'', ''events.telemetry.module2.>'', ''events.>'']"

definition digit :: "nat \<Rightarrow> char" where
  "digit d = ''0123456789'' ! d"

text \<open>The decimal numeral that a template literal prints for a natural number.\<close>

function toString :: "nat \<Rightarrow> string" where
  "toString n = (if n < 10 then [digit n] else toString (n div 10) @ [digit (n mod 10)])"
  by pat_completeness auto
termination
  by (relation "measure (\<lambda>n. n)") auto

declare toString.simps [simp del]

text \<open>The two constants at the head of \<^verbatim>\<open>runConsumerLoop\<close>: \<^verbatim>\<open>id\<close> and \<^verbatim>\<open>subject\<close>.\<close>

definition consumer_id :: "nat \<Rightarrow> string" where
  "consumer_id consumerId = ''consumer_'' @ toString consumerId"

definition consumer_subject :: "nat \<Rightarrow> string" where
  "consumer_subject consumerId = SUBJECTS ! (consumerId mod length SUBJECTS)"

text \<open>\<^verbatim>\<open>createOrderedConsumer\<close> up to its \<^verbatim>\<open>await\<close>: the fresh \<^verbatim>\<open>info\<close>, made at time \<open>now\<close>.\<close>

definition createOrderedConsumer_info :: "string \<Rightarrow> string \<Rightarrow> int \<Rightarrow> ConsumerInfo" where
  "createOrderedConsumer_info i sub now =
     \<lparr>id_field = i, subject = sub, createdAt = now, subscription = None, messageCount = 0\<rparr>"

text \<open>\<^verbatim>\<open>printStats\<close>.\<close>

definition printStats :: "state \<Rightarrow> stats" where
  "printStats s =
     \<lparr>stat_active = length (activeConsumers s),
      stat_created = totalCreated s,
      stat_closed = totalClosed s,
      stat_reconnects = totalReconnects s,
      stat_createErrors = createErrors s,
      leaked = int (totalCreated s) - int (totalClosed s) - int (length (activeConsumers s))\<rparr>"

text \<open>
  The events. \<open>Start now\<close>: \<^verbatim>\<open>main\<close> calls \<^verbatim>\<open>runConsumerLoop(js, i)\<close> for the next
  \<open>i\<close>. For the loop of consumer \<open>i\<close>: \<open>SubscribeOk i sub\<close> and \<open>SubscribeFail i msg\<close>,
  \<^verbatim>\<open>js.subscribe\<close> resolves with \<open>sub\<close> or rejects; \<open>Resume i\<close>, the queued continuation
  runs; \<open>LifetimeElapsed i\<close> and \<open>CooldownElapsed i now\<close>, the timer of a \<^verbatim>\<open>sleep\<close> fires;
  \<open>DestroyOk i\<close> and \<open>DestroyFail i\<close>, \<^verbatim>\<open>destroy()\<close> resolves or rejects; \<open>Deliver i\<close>,
  the detached \<^verbatim>\<open>for await\<close> receives a message. \<open>Tick\<close>: a timer calls
  \<^verbatim>\<open>printStats\<close>.
\<close>

datatype event =
    Start int
  | SubscribeOk nat JetStreamSubscription
  | SubscribeFail nat string
  | Resume nat
  | LifetimeElapsed nat
  | Deliver nat
  | DestroyOk nat
  | DestroyFail nat
  | CooldownElapsed nat int
  | Tick

text \<open>
  \<^verbatim>\<open>createOrderedConsumer\<close> and \<^verbatim>\<open>closeConsumer\<close> are \<^verbatim>\<open>async\<close> functions of the
  program itself: when one of them returns, the continuation of the \<^verbatim>\<open>await\<close> in
  \<^verbatim>\<open>runConsumerLoop\<close> is queued as a microtask. A timer callback runs only when the
  microtask queue is empty, so \<^verbatim>\<open>printStats\<close> never runs while a loop is at
  \<open>Created\<close> or \<open>Closed\<close>. The events of the other loops are not restricted there.
\<close>

fun microtask_pending :: "location \<Rightarrow> bool" where
  "microtask_pending (Created info) = True"
| "microtask_pending (Closed info) = True"
| "microtask_pending _ = False"

definition quiescent :: "state \<Rightarrow> bool" where
  "quiescent s = list_all (\<lambda>i. \<not> microtask_pending (loops s i)) [0..<NUM_CONSUMERS s]"

text \<open>The body of the detached task: \<^verbatim>\<open>info.messageCount++\<close>.\<close>

definition count_message :: "ConsumerInfo \<Rightarrow> ConsumerInfo" where
  "count_message info = info\<lparr>messageCount := messageCount info + 1\<rparr>"

text \<open>
  One step; \<open>None\<close> when the event cannot happen in the state. By event, the lines of
  \<^verbatim>\<open>simulator.ts\<close> that run:
  \<^item> \<open>Start\<close>: 244, then 126 to 130 and 82 to 95, up to the \<^verbatim>\<open>await\<close> of
    \<^verbatim>\<open>js.subscribe\<close>;
  \<^item> \<open>SubscribeOk\<close>: the assignment of 95, then 96 to 104 and 113;
  \<^item> \<open>SubscribeFail\<close>: 106 to 111 and 113;
  \<^item> \<open>Resume\<close>: at \<open>Created\<close>, the assignment of 130, then 131 and the call of 133; at
    \<open>Closed\<close>, 136 and 137 and the call of 139;
  \<^item> \<open>LifetimeElapsed\<close>: 135, then 117 to 119 up to the \<^verbatim>\<open>await\<close> of \<^verbatim>\<open>destroy()\<close>,
    or 117 alone when \<^verbatim>\<open>info.subscription\<close> is \<^verbatim>\<open>null\<close>;
  \<^item> \<open>DestroyOk\<close>: 120; \<open>DestroyFail\<close>: 121;
  \<^item> \<open>CooldownElapsed\<close>: 129 and 130, then 82 to 95 again;
  \<^item> \<open>Deliver\<close>: 101;
  \<^item> \<open>Tick\<close>: 180 to 198, called by the timers of 248 and 249, which \<^verbatim>\<open>main\<close> sets
    after its \<^verbatim>\<open>for\<close> loop, hence when \<open>started\<close> has reached \<open>NUM_CONSUMERS\<close>.

  The \<^verbatim>\<open>info\<close> of a loop and the value stored under its \<^verbatim>\<open>id\<close> are one object, so
  \<open>Deliver\<close> changes both.
\<close>

fun step :: "event \<Rightarrow> state \<Rightarrow> state option" where
  "step (Start now) s =
     (if started s < NUM_CONSUMERS s then
        Some (s\<lparr>loops := (loops s)(started s :=
                   Creating (createOrderedConsumer_info (consumer_id (started s))
                               (consumer_subject (started s)) now)),
                started := started s + 1\<rparr>)
      else None)"
| "step (SubscribeOk i sub) s =
     (case loops s i of
        Creating info \<Rightarrow>
          Some (s\<lparr>totalCreated := totalCreated s + 1,
                  loops := (loops s)(i := Created (info\<lparr>subscription := Some sub\<rparr>))\<rparr>)
      | _ \<Rightarrow> None)"
| "step (SubscribeFail i msg) s =
     (case loops s i of
        Creating info \<Rightarrow>
          Some (s\<lparr>createErrors := createErrors s + 1,
                  console := console s @
                    (if (createErrors s + 1) mod 10 = 1
                     then [CreateErrorLog (createErrors s + 1) msg] else []),
                  loops := (loops s)(i := Created info)\<rparr>)
      | _ \<Rightarrow> None)"
| "step (Resume i) s =
     (case loops s i of
        Created info \<Rightarrow>
          Some (s\<lparr>activeConsumers := AList.update (consumer_id i) info (activeConsumers s),
                  loops := (loops s)(i := Running info)\<rparr>)
      | Closed info \<Rightarrow>
          Some (s\<lparr>activeConsumers := AList.delete (consumer_id i) (activeConsumers s),
                  totalReconnects := totalReconnects s + 1,
                  loops := (loops s)(i := Cooldown)\<rparr>)
      | _ \<Rightarrow> None)"
| "step (LifetimeElapsed i) s =
     (case loops s i of
        Running info \<Rightarrow>
          Some (s\<lparr>loops := (loops s)(i :=
                   (if subscription info \<noteq> None then Destroying info else Closed info))\<rparr>)
      | _ \<Rightarrow> None)"
| "step (Deliver i) s =
     (case loops s i of
        Created info \<Rightarrow>
          (if subscription info \<noteq> None
           then Some (s\<lparr>loops := (loops s)(i := Created (count_message info))\<rparr>) else None)
      | Running info \<Rightarrow>
          (if subscription info \<noteq> None
           then Some (s\<lparr>activeConsumers :=
                           AList.map_entry (consumer_id i) count_message (activeConsumers s),
                         loops := (loops s)(i := Running (count_message info))\<rparr>)
           else None)
      | Destroying info \<Rightarrow>
          (if subscription info \<noteq> None
           then Some (s\<lparr>activeConsumers :=
                           AList.map_entry (consumer_id i) count_message (activeConsumers s),
                         loops := (loops s)(i := Destroying (count_message info))\<rparr>)
           else None)
      | Closed info \<Rightarrow>
          (if subscription info \<noteq> None
           then Some (s\<lparr>activeConsumers :=
                           AList.map_entry (consumer_id i) count_message (activeConsumers s),
                         loops := (loops s)(i := Closed (count_message info))\<rparr>)
           else None)
      | _ \<Rightarrow> None)"
| "step (DestroyOk i) s =
     (case loops s i of
        Destroying info \<Rightarrow>
          Some (s\<lparr>totalClosed := totalClosed s + 1, loops := (loops s)(i := Closed info)\<rparr>)
      | _ \<Rightarrow> None)"
| "step (DestroyFail i) s =
     (case loops s i of
        Destroying info \<Rightarrow> Some (s\<lparr>loops := (loops s)(i := Closed info)\<rparr>)
      | _ \<Rightarrow> None)"
| "step (CooldownElapsed i now) s =
     (case loops s i of
        Cooldown \<Rightarrow>
          Some (s\<lparr>loops := (loops s)(i :=
                   Creating (createOrderedConsumer_info (consumer_id i) (consumer_subject i) now))\<rparr>)
      | _ \<Rightarrow> None)"
| "step Tick s =
     (if started s = NUM_CONSUMERS s \<and> quiescent s
      then Some (s\<lparr>console := console s @ [StatsLog (printStats s)]\<rparr>) else None)"

text \<open>A run: the events of a list, one after the other, from a state.\<close>

fun run :: "event list \<Rightarrow> state \<Rightarrow> state option" where
  "run [] s = Some s"
| "run (e # es) s = (case step e s of None \<Rightarrow> None | Some s' \<Rightarrow> run es s')"

text \<open>The state in which \<^verbatim>\<open>main\<close> enters its \<^verbatim>\<open>for\<close> loop, for \<open>n\<close> consumers.\<close>

definition init :: "nat \<Rightarrow> state" where
  "init n =
     \<lparr>activeConsumers = [], totalCreated = 0, totalClosed = 0, totalReconnects = 0,
      createErrors = 0, loops = (\<lambda>i. NotStarted), started = 0, NUM_CONSUMERS = n,
      console = []\<rparr>"

text \<open>An event that is a failure of \<^verbatim>\<open>js.subscribe\<close> or of \<^verbatim>\<open>destroy()\<close>.\<close>

fun failure :: "event \<Rightarrow> bool" where
  "failure (SubscribeFail i msg) = True"
| "failure (DestroyFail i) = True"
| "failure _ = False"

text \<open>The loop an event belongs to, if any.\<close>

fun loop_of :: "event \<Rightarrow> nat option" where
  "loop_of (Start now) = None"
| "loop_of (SubscribeOk i sub) = Some i"
| "loop_of (SubscribeFail i msg) = Some i"
| "loop_of (Resume i) = Some i"
| "loop_of (LifetimeElapsed i) = Some i"
| "loop_of (Deliver i) = Some i"
| "loop_of (DestroyOk i) = Some i"
| "loop_of (DestroyFail i) = Some i"
| "loop_of (CooldownElapsed i now) = Some i"
| "loop_of Tick = None"

section \<open>Invariants of the churn\<close>

text \<open>
  The loops whose \<^verbatim>\<open>id\<close> is a key of \<^verbatim>\<open>activeConsumers\<close>: those between the
  \<^verbatim>\<open>set\<close> of line 131 and the \<^verbatim>\<open>delete\<close> of line 136.
\<close>

fun in_registry :: "location \<Rightarrow> bool" where
  "in_registry (Running info) = True"
| "in_registry (Destroying info) = True"
| "in_registry (Closed info) = True"
| "in_registry _ = False"

text \<open>
  The loops that hold a subscription that was counted in \<^verbatim>\<open>totalCreated\<close> and whose
  \<^verbatim>\<open>destroy()\<close> has not settled yet, and their number among the first \<open>n\<close> loops.
\<close>

fun holds_subscription :: "location \<Rightarrow> bool" where
  "holds_subscription (Created info) = (subscription info \<noteq> None)"
| "holds_subscription (Running info) = (subscription info \<noteq> None)"
| "holds_subscription (Destroying info) = (subscription info \<noteq> None)"
| "holds_subscription _ = False"

definition open_count :: "nat \<Rightarrow> state \<Rightarrow> int" where
  "open_count n s = (\<Sum>i<n. of_bool (holds_subscription (loops s i)))"

text \<open>The keys of \<^verbatim>\<open>activeConsumers\<close>.\<close>

definition registered :: "state \<Rightarrow> string set" where
  "registered s = fst ` set (activeConsumers s)"

text \<open>
  What holds in every state that a run reaches from \<^const>\<open>init\<close>: the loops not yet
  started are the ones from \<open>started\<close> on, the keys of the registry are distinct and are
  the ids of the loops between \<^verbatim>\<open>set\<close> and \<^verbatim>\<open>delete\<close>, a fresh \<^verbatim>\<open>info\<close> has no
  subscription, \<^verbatim>\<open>destroy()\<close> is awaited on a subscription only, and every counted
  close is matched by a counted create.
\<close>

definition invariant :: "nat \<Rightarrow> state \<Rightarrow> bool" where
  "invariant n s \<longleftrightarrow>
     NUM_CONSUMERS s = n \<and> started s \<le> n \<and>
     (\<forall>i. started s \<le> i \<longrightarrow> loops s i = NotStarted) \<and>
     distinct (map fst (activeConsumers s)) \<and>
     registered s \<subseteq> range consumer_id \<and>
     (\<forall>i. consumer_id i \<in> registered s \<longleftrightarrow> in_registry (loops s i)) \<and>
     (\<forall>i info. loops s i = Creating info \<longrightarrow> subscription info = None) \<and>
     (\<forall>i info. loops s i = Destroying info \<longrightarrow> subscription info \<noteq> None) \<and>
     int (totalClosed s) + open_count n s \<le> int (totalCreated s)"

text \<open>
  What holds in addition as long as no \<^verbatim>\<open>js.subscribe\<close> and no \<^verbatim>\<open>destroy()\<close> has
  failed: the two counters differ by the number of open subscriptions, every \<^verbatim>\<open>info\<close>
  past its creation has a subscription, and every report printed so far shows no leak.
\<close>

definition clean :: "nat \<Rightarrow> state \<Rightarrow> bool" where
  "clean n s \<longleftrightarrow>
     int (totalClosed s) + open_count n s = int (totalCreated s) \<and>
     (\<forall>i info. loops s i = Created info \<or> loops s i = Running info \<longrightarrow> subscription info \<noteq> None) \<and>
     (\<forall>st. StatsLog st \<in> set (console s) \<longrightarrow> leaked st = 0)"

subsection \<open>Sample platforms\<close>

text \<open>
  An error that is not the "already exists" signal, the signal itself, and a
  platform that is reachable and ready but rejects every stream creation.
\<close>

definition timeout_error :: js_error where
  "timeout_error = \<lparr>message = Some ''timeout'', code = None\<rparr>"

definition in_use_error :: js_error where
  "in_use_error = \<lparr>message = Some ''stream name already in use'', code = Some ''10058''\<rparr>"

definition add_always_fails :: "nat \<Rightarrow> add_result" where
  "add_always_fails attempt = AddErr timeout_error"

definition list_always_resolves :: "nat \<Rightarrow> bool" where
  "list_always_resolves attempt = True"

definition platform_without_stream :: platform where
  "platform_without_stream =
     \<lparr>connect_fails = False, jetstreamManager_fails = False,
      streams_list = list_always_resolves, streams_add = add_always_fails\<rparr>"

section \<open>Properties of the start-up\<close>

subsection \<open>The readiness poll\<close>

lemma waitForJetStream_loop_found:
  "i \<le> k \<Longrightarrow> k < m \<Longrightarrow> probe k \<Longrightarrow> (\<forall>j. i \<le> j \<and> j < k \<longrightarrow> \<not> probe j) \<Longrightarrow>
   waitForJetStream_loop probe m i =
     (True, concat (map (\<lambda>j. [StreamsList, LogWaiting (j + 1) m, Sleep 2000]) [i..<k]) @ [StreamsList])"
proof (induction rule: inc_induct)
  case base
  then show ?case by (simp add: waitForJetStream_loop.simps [of probe m k])
next
  case (step n)
  then show ?case
    by (simp add: waitForJetStream_loop.simps [of probe m n] upt_conv_Cons)
qed

lemma waitForJetStream_loop_exhausted:
  "i \<le> m \<Longrightarrow> (\<forall>j. i \<le> j \<and> j < m \<longrightarrow> \<not> probe j) \<Longrightarrow>
   waitForJetStream_loop probe m i =
     (False, concat (map (\<lambda>j. [StreamsList, LogWaiting (j + 1) m, Sleep 2000]) [i..<m]))"
proof (induction rule: inc_induct)
  case base
  then show ?case by (simp add: waitForJetStream_loop.simps [of probe m m])
next
  case (step n)
  then show ?case
    by (simp add: waitForJetStream_loop.simps [of probe m n] upt_conv_Cons)
qed

lemma waitForJetStream_loop_ready:
  "fst (waitForJetStream_loop probe m i) = (\<exists>j. i \<le> j \<and> j < m \<and> probe j)"
proof (induction probe m i rule: waitForJetStream_loop.induct)
  case (1 probe m i)
  show ?case
  proof (cases "i < m \<and> \<not> probe i")
    case True
    then have "fst (waitForJetStream_loop probe m i) = (\<exists>j. i + 1 \<le> j \<and> j < m \<and> probe j)"
      using 1 by (simp add: waitForJetStream_loop.simps [of probe m i])
    also have "\<dots> = (\<exists>j. i \<le> j \<and> j < m \<and> probe j)"
      using True by (metis Suc_eq_plus1 Suc_leD Suc_leI le_neq_implies_less)
    finally show ?thesis .
  next
    case False
    then show ?thesis
      by (auto simp: waitForJetStream_loop.simps [of probe m i])
  qed
qed

lemma main_exit:
  "(fst (main MODE n p) = Exit c) =
     (c = 1 \<and> (connect_fails p \<or> (MODE \<noteq> ''publisher'' \<and>
        (jetstreamManager_fails p \<or> (\<forall>j<30. \<not> streams_list p j)))))"
  using waitForJetStream_loop_ready [of "streams_list p" 30 0]
  by (auto simp: main_def waitForJetStream_def split: prod.splits)

text \<open>
  Claim C8. \<^verbatim>\<open>waitForJetStream\<close> returns \<^verbatim>\<open>true\<close> at the first probe that succeeds,
  without probing again: when the probe at index \<open>k\<close> is the first to succeed, the call
  returns \<open>True\<close> after \<open>k\<close> failed rounds and one more probe. When each of the
  \<open>maxRetries\<close> probes fails it returns \<open>False\<close> (a value, not an exception). A failed
  round is a probe, a log line and a sleep of 2000 ms, so consecutive probes are
  separated by that sleep.
\<close>

theorem waitForJetStream_result:
  "(k < maxRetries \<and> probe k \<and> (\<forall>j<k. \<not> probe j) \<longrightarrow>
      waitForJetStream probe maxRetries =
        (True, concat (map (\<lambda>j. [StreamsList, LogWaiting (j + 1) maxRetries, Sleep 2000]) [0..<k])
                 @ [StreamsList]))
   \<and> ((\<forall>j<maxRetries. \<not> probe j) \<longrightarrow>
      waitForJetStream probe maxRetries =
        (False, concat (map (\<lambda>j. [StreamsList, LogWaiting (j + 1) maxRetries, Sleep 2000])
                  [0..<maxRetries])))"
  using waitForJetStream_loop_found [of 0 k maxRetries probe]
    waitForJetStream_loop_exhausted [of 0 maxRetries probe]
  by (simp add: waitForJetStream_def)

text \<open>The first success at index 2 of 30, and two attempts that both fail.\<close>

theorem waitForJetStream_result_witness:
  "waitForJetStream (\<lambda>j. 2 \<le> j) 30 =
     (True, [StreamsList, LogWaiting 1 30, Sleep 2000, StreamsList, LogWaiting 2 30, Sleep 2000,
             StreamsList])
   \<and> waitForJetStream (\<lambda>j. False) 2 =
     (False, [StreamsList, LogWaiting 1 2, Sleep 2000, StreamsList, LogWaiting 2 2, Sleep 2000])"
proof -
  have a: "(2::nat) < 30 \<and> (2::nat) \<le> 2 \<and> (\<forall>j<2::nat. \<not> 2 \<le> j)" by simp
  have b: "\<forall>j<2::nat. \<not> False" by simp
  show ?thesis
    using a b waitForJetStream_result [of 2 30 "\<lambda>j. 2 \<le> j"]
      waitForJetStream_result [of 0 2 "\<lambda>j. False"]
    by (simp add: upt_conv_Cons)
qed

subsection \<open>Stream provisioning\<close>

lemma createStream_loop_exists:
  "i \<le> k \<Longrightarrow> k < 10 \<Longrightarrow> add k = AddErr e \<Longrightarrow> already_exists e \<Longrightarrow>
   (\<forall>j. i \<le> j \<and> j < k \<longrightarrow> (\<exists>e'. add j = AddErr e' \<and> \<not> already_exists e')) \<Longrightarrow>
   createStream_loop add i =
     concat (map (\<lambda>j. [StreamsAdd, LogAttemptFailed (j + 1) (message (the_error (add j))), Sleep 3000])
       [i..<k]) @ [StreamsAdd, LogStreamExists]"
proof (induction rule: inc_induct)
  case base
  then show ?case by (simp add: createStream_loop.simps [of add k])
next
  case (step n)
  then obtain e' where "add n = AddErr e'" "\<not> already_exists e'" by auto
  with step show ?case
    by (simp add: createStream_loop.simps [of add n] upt_conv_Cons)
qed

lemma createStream_loop_created:
  "i \<le> k \<Longrightarrow> k < 10 \<Longrightarrow> add k = AddOk \<Longrightarrow>
   (\<forall>j. i \<le> j \<and> j < k \<longrightarrow> (\<exists>e'. add j = AddErr e' \<and> \<not> already_exists e')) \<Longrightarrow>
   createStream_loop add i =
     concat (map (\<lambda>j. [StreamsAdd, LogAttemptFailed (j + 1) (message (the_error (add j))), Sleep 3000])
       [i..<k]) @ [StreamsAdd, LogStreamCreated]"
proof (induction rule: inc_induct)
  case base
  then show ?case by (simp add: createStream_loop.simps [of add k])
next
  case (step n)
  then obtain e' where "add n = AddErr e'" "\<not> already_exists e'" by auto
  with step show ?case
    by (simp add: createStream_loop.simps [of add n] upt_conv_Cons)
qed

lemma createStream_loop_exhausted:
  "i \<le> 10 \<Longrightarrow>
   (\<forall>j. i \<le> j \<and> j < 10 \<longrightarrow> (\<exists>e'. add j = AddErr e' \<and> \<not> already_exists e')) \<Longrightarrow>
   createStream_loop add i =
     concat (map (\<lambda>j. [StreamsAdd, LogAttemptFailed (j + 1) (message (the_error (add j))), Sleep 3000])
       [i..<10])"
proof (induction rule: inc_induct)
  case base
  then show ?case by (simp add: createStream_loop.simps [of add 10])
next
  case (step n)
  then obtain e' where "add n = AddErr e'" "\<not> already_exists e'" by auto
  with step show ?case
    by (simp add: createStream_loop.simps [of add n] upt_conv_Cons)
qed

lemma timeout_not_exists: "\<not> already_exists timeout_error"
  by (simp add: already_exists_def timeout_error_def)

lemma in_use_exists: "already_exists in_use_error"
  by (simp add: already_exists_def in_use_error_def)

text \<open>
  Claim C9. When \<^verbatim>\<open>jsm.streams.add\<close> fails with the "already exists" signal (a
  message that contains "already in use", or the code "10058"), \<^verbatim>\<open>createStream\<close>
  logs it and returns normally at once: no sleep and no further attempt follow, whether
  the signal comes at the first attempt or after some plain failures. A call that meets
  the signal or a success at its first attempt, as a second call with the same
  specification does, makes that one attempt only.
\<close>

theorem createStream_already_exists:
  "(k < 10 \<and> add k = AddErr e \<and> already_exists e
      \<and> (\<forall>j<k. \<exists>e'. add j = AddErr e' \<and> \<not> already_exists e') \<longrightarrow>
    createStream add =
      concat (map (\<lambda>j. [StreamsAdd, LogAttemptFailed (j + 1) (message (the_error (add j))),
                          Sleep 3000]) [0..<k])
      @ [StreamsAdd, LogStreamExists])
   \<and> (add 0 = AddErr e \<and> already_exists e \<longrightarrow> createStream add = [StreamsAdd, LogStreamExists])
   \<and> (add 0 = AddOk \<longrightarrow> createStream add = [StreamsAdd, LogStreamCreated])"
  using createStream_loop_exists [of 0 k add e] createStream_loop_exists [of 0 0 add e]
    createStream_loop_created [of 0 0 add]
  by (simp add: createStream_def)

text \<open>The signal after two plain failures, at the first attempt, and a plain success.\<close>

theorem createStream_already_exists_witness:
  "createStream (\<lambda>j. if j < 2 then AddErr timeout_error else AddErr in_use_error) =
     [StreamsAdd, LogAttemptFailed 1 (Some ''timeout''), Sleep 3000,
      StreamsAdd, LogAttemptFailed 2 (Some ''timeout''), Sleep 3000,
      StreamsAdd, LogStreamExists]
   \<and> createStream (\<lambda>j. AddErr in_use_error) = [StreamsAdd, LogStreamExists]
   \<and> createStream (\<lambda>j. AddOk) = [StreamsAdd, LogStreamCreated]"
proof -
  let ?add = "\<lambda>j::nat. if j < 2 then AddErr timeout_error else AddErr in_use_error"
  have a: "(2::nat) < 10 \<and> ?add 2 = AddErr in_use_error \<and> already_exists in_use_error
      \<and> (\<forall>j<2. \<exists>e'. ?add j = AddErr e' \<and> \<not> already_exists e')"
    using timeout_not_exists in_use_exists by simp
  have b: "(\<lambda>j::nat. AddErr in_use_error) 0 = AddErr in_use_error \<and> already_exists in_use_error"
    using in_use_exists by simp
  have c: "(\<lambda>j::nat. AddOk) 0 = AddOk" by simp
  have m: "message timeout_error = Some ''timeout''" by (simp add: timeout_error_def)
  from a createStream_already_exists [of 2 ?add in_use_error]
  have "createStream ?add =
      concat (map (\<lambda>j. [StreamsAdd, LogAttemptFailed (j + 1) (message (the_error (?add j))),
                          Sleep 3000]) [0..<2])
      @ [StreamsAdd, LogStreamExists]" by blast
  then have 1: "createStream ?add =
     [StreamsAdd, LogAttemptFailed 1 (Some ''timeout''), Sleep 3000,
      StreamsAdd, LogAttemptFailed 2 (Some ''timeout''), Sleep 3000,
      StreamsAdd, LogStreamExists]"
    by (simp add: upt_conv_Cons m)
  from b createStream_already_exists [of 0 "\<lambda>j. AddErr in_use_error" in_use_error]
  have 2: "createStream (\<lambda>j. AddErr in_use_error) = [StreamsAdd, LogStreamExists]" by blast
  from c createStream_already_exists [of 0 "\<lambda>j. AddOk" in_use_error]
  have 3: "createStream (\<lambda>j. AddOk) = [StreamsAdd, LogStreamCreated]" by blast
  from 1 2 3 show ?thesis by blast
qed

text \<open>
  Claim C3 fails on the code. With a platform that is reachable and ready but rejects
  each of the ten stream creations with an error other than "already exists",
  \<^verbatim>\<open>createStream\<close> returns normally after the tenth attempt and \<^verbatim>\<open>main\<close> starts
  the consumer loops: the process does not exit.
\<close>

theorem provisioning_failure_not_fatal:
  "fst (main ''consumer'' 20 platform_without_stream) = ConsumersStarted
   \<and> count_list (createStream (streams_add platform_without_stream)) StreamsAdd = 10
   \<and> \<not> already_exists timeout_error"
  by (simp add: main_def platform_without_stream_def waitForJetStream_def
      waitForJetStream_loop.simps list_always_resolves_def createStream_def
      createStream_loop.simps add_always_fails_def timeout_not_exists)

text \<open>
  Claim C3, amended. When each of the ten attempts of \<^verbatim>\<open>createStream\<close> fails with an
  error other than "already exists", it logs each failure, sleeps 3000 ms after each
  and returns normally; it propagates nothing. \<^verbatim>\<open>main\<close> exits, with code 1, exactly
  when \<^verbatim>\<open>connect\<close> fails or, in consumer mode, \<^verbatim>\<open>nc.jetstreamManager()\<close> fails or
  all 30 readiness probes fail; otherwise, in consumer mode, it starts the consumer
  loops whatever the stream creations did.
\<close>

theorem provisioning_exhausted:
  "(\<forall>j<10. \<exists>e. streams_add p j = AddErr e \<and> \<not> already_exists e) \<Longrightarrow>
   createStream (streams_add p) =
     concat (map (\<lambda>j. [StreamsAdd,
                         LogAttemptFailed (j + 1) (message (the_error (streams_add p j))),
                         Sleep 3000]) [0..<10])
   \<and> (\<forall>c. fst (main MODE n p) = Exit c \<longleftrightarrow>
         c = 1 \<and> (connect_fails p \<or> (MODE \<noteq> ''publisher'' \<and>
           (jetstreamManager_fails p \<or> (\<forall>j<30. \<not> streams_list p j)))))
   \<and> (\<not> connect_fails p \<and> MODE \<noteq> ''publisher'' \<and> \<not> jetstreamManager_fails p
        \<and> (\<exists>j<30. streams_list p j) \<longrightarrow> fst (main MODE n p) = ConsumersStarted)"
proof -
  assume a: "\<forall>j<10. \<exists>e. streams_add p j = AddErr e \<and> \<not> already_exists e"
  have 1: "createStream (streams_add p) =
     concat (map (\<lambda>j. [StreamsAdd,
                         LogAttemptFailed (j + 1) (message (the_error (streams_add p j))),
                         Sleep 3000]) [0..<10])"
    using a createStream_loop_exhausted [of 0 "streams_add p"] by (simp add: createStream_def)
  have 2: "\<forall>c. fst (main MODE n p) = Exit c \<longleftrightarrow>
         c = 1 \<and> (connect_fails p \<or> (MODE \<noteq> ''publisher'' \<and>
           (jetstreamManager_fails p \<or> (\<forall>j<30. \<not> streams_list p j))))"
    using main_exit [of MODE n p] by blast
  have 3: "\<not> connect_fails p \<and> MODE \<noteq> ''publisher'' \<and> \<not> jetstreamManager_fails p
        \<and> (\<exists>j<30. streams_list p j) \<longrightarrow> fst (main MODE n p) = ConsumersStarted"
    using waitForJetStream_loop_ready [of "streams_list p" 30 0]
    by (auto simp: main_def waitForJetStream_def split: prod.splits)
  from 1 2 3 show ?thesis by blast
qed

text \<open>The platform that rejects every stream creation: ten attempts, then the loops start.\<close>

theorem provisioning_exhausted_witness:
  "streams_add platform_without_stream 9 = AddErr timeout_error
   \<and> \<not> already_exists timeout_error
   \<and> createStream (streams_add platform_without_stream) =
       concat (map (\<lambda>j. [StreamsAdd, LogAttemptFailed (j + 1) (Some ''timeout''), Sleep 3000])
         [0..<10])
   \<and> fst (main ''consumer'' 20 platform_without_stream) \<noteq> Exit 1
   \<and> fst (main ''consumer'' 20 platform_without_stream) = ConsumersStarted"
proof -
  have a: "\<forall>j<10. \<exists>e. streams_add platform_without_stream j = AddErr e \<and> \<not> already_exists e"
    by (simp add: platform_without_stream_def add_always_fails_def timeout_not_exists)
  have b: "\<not> connect_fails platform_without_stream"
    "\<not> jetstreamManager_fails platform_without_stream"
    by (simp_all add: platform_without_stream_def)
  have "(0::nat) < 30 \<and> streams_list platform_without_stream 0"
    by (simp add: platform_without_stream_def list_always_resolves_def)
  then have b': "\<exists>j<30. streams_list platform_without_stream j" by blast
  have c: "''consumer'' \<noteq> ''publisher''" by simp
  have t: "createStream (streams_add platform_without_stream) =
     concat (map (\<lambda>j. [StreamsAdd,
                         LogAttemptFailed (j + 1)
                           (message (the_error (streams_add platform_without_stream j))),
                         Sleep 3000]) [0..<10])
   \<and> (\<forall>c. fst (main ''consumer'' 20 platform_without_stream) = Exit c \<longleftrightarrow>
         c = 1 \<and> (connect_fails platform_without_stream \<or> (''consumer'' \<noteq> ''publisher'' \<and>
           (jetstreamManager_fails platform_without_stream
            \<or> (\<forall>j<30. \<not> streams_list platform_without_stream j)))))
   \<and> (\<not> connect_fails platform_without_stream \<and> ''consumer'' \<noteq> ''publisher''
        \<and> \<not> jetstreamManager_fails platform_without_stream
        \<and> (\<exists>j<30. streams_list platform_without_stream j) \<longrightarrow>
        fst (main ''consumer'' 20 platform_without_stream) = ConsumersStarted)"
    using provisioning_exhausted [OF a, of "''consumer''" 20] .
  from t have "createStream (streams_add platform_without_stream) =
       concat (map (\<lambda>j. [StreamsAdd, LogAttemptFailed (j + 1) (Some ''timeout''), Sleep 3000])
         [0..<10])"
    by (simp add: platform_without_stream_def add_always_fails_def timeout_error_def)
  moreover from t b b' c have "fst (main ''consumer'' 20 platform_without_stream) = ConsumersStarted"
    by blast
  moreover have "streams_add platform_without_stream 9 = AddErr timeout_error"
    by (simp add: platform_without_stream_def add_always_fails_def)
  ultimately show ?thesis using timeout_not_exists by simp
qed

section \<open>Properties of the churn\<close>

subsection \<open>The ids of distinct loops differ\<close>

lemma digit_inj: "d < 10 \<Longrightarrow> d' < 10 \<Longrightarrow> digit d = digit d' \<Longrightarrow> d = d'"
proof -
  assume a: "d < 10" "d' < 10" "digit d = digit d'"
  have "distinct ''0123456789''" by simp
  moreover have "d < length ''0123456789''" "d' < length ''0123456789''" using a by simp_all
  ultimately show ?thesis
    using a(3) unfolding digit_def by (simp only: nth_eq_iff_index_eq)
qed

lemma toString_nonempty: "toString n \<noteq> []"
  by (simp add: toString.simps [of n])

lemma toString_inj: "toString n = toString m \<Longrightarrow> n = m"
proof (induction n arbitrary: m rule: toString.induct)
  case (1 n)
  show ?case
  proof (cases "n < 10")
    case True
    then have n: "toString n = [digit n]" by (simp add: toString.simps [of n])
    show ?thesis
    proof (cases "m < 10")
      case True
      then have "toString m = [digit m]" by (simp add: toString.simps [of m])
      with n "1.prems" \<open>n < 10\<close> True show ?thesis by (simp add: digit_inj)
    next
      case False
      then have "toString m = toString (m div 10) @ [digit (m mod 10)]"
        by (simp add: toString.simps [of m])
      with n "1.prems" toString_nonempty [of "m div 10"] show ?thesis by simp
    qed
  next
    case False
    then have n: "toString n = toString (n div 10) @ [digit (n mod 10)]"
      by (simp add: toString.simps [of n])
    show ?thesis
    proof (cases "m < 10")
      case True
      then have "toString m = [digit m]" by (simp add: toString.simps [of m])
      with n "1.prems" toString_nonempty [of "n div 10"] show ?thesis by simp
    next
      case m: False
      then have "toString m = toString (m div 10) @ [digit (m mod 10)]"
        by (simp add: toString.simps [of m])
      with n "1.prems" have eq: "toString (n div 10) = toString (m div 10)"
        "digit (n mod 10) = digit (m mod 10)" by simp_all
      from "1.IH" [OF False eq(1)] have "n div 10 = m div 10" .
      moreover from eq(2) have "n mod 10 = m mod 10" by (simp add: digit_inj)
      ultimately show ?thesis by (metis div_mult_mod_eq)
    qed
  qed
qed

lemma consumer_id_inj [simp]: "(consumer_id i = consumer_id j) = (i = j)"
  by (auto simp: consumer_id_def dest: toString_inj)

lemma inj_consumer_id: "inj_on consumer_id A"
  by (simp add: inj_on_def)

subsection \<open>The invariant is kept by every step\<close>

lemma sum_fun_upd:
  fixes f :: "'a \<Rightarrow> int" and g :: "nat \<Rightarrow> 'a"
  assumes "i < n"
  shows "(\<Sum>j<n. f ((g(i := x)) j)) = (\<Sum>j<n. f (g j)) - f (g i) + f x"
proof -
  have i: "i \<in> {..<n}" "finite {..<n}" using assms by simp_all
  have "(\<Sum>j<n. f ((g(i := x)) j)) = f x + (\<Sum>j\<in>{..<n} - {i}. f ((g(i := x)) j))"
    using sum.remove [OF i(2) i(1), of "\<lambda>j. f ((g(i := x)) j)"] by simp
  also have "(\<Sum>j\<in>{..<n} - {i}. f ((g(i := x)) j)) = (\<Sum>j\<in>{..<n} - {i}. f (g j))"
    by (rule sum.cong) auto
  also have "(\<Sum>j<n. f (g j)) = f (g i) + (\<Sum>j\<in>{..<n} - {i}. f (g j))"
    using sum.remove [OF i(2) i(1), of "\<lambda>j. f (g j)"] by simp
  then have "(\<Sum>j\<in>{..<n} - {i}. f (g j)) = (\<Sum>j<n. f (g j)) - f (g i)" by simp
  finally show ?thesis by simp
qed

lemma open_count_upd:
  "i < n \<Longrightarrow> open_count n (s\<lparr>loops := (loops t)(i := l)\<rparr>) =
     open_count n t - of_bool (holds_subscription (loops t i)) + of_bool (holds_subscription l)"
proof -
  assume "i < n"
  have sel: "loops (s\<lparr>loops := (loops t)(i := l)\<rparr>) = (loops t)(i := l)" by simp
  from sum_fun_upd [OF \<open>i < n\<close>, of "\<lambda>l. of_bool (holds_subscription l)" "loops t" l]
  show ?thesis unfolding open_count_def sel .
qed

lemma open_count_other [simp]:
  "open_count n (s\<lparr>activeConsumers := a\<rparr>) = open_count n s"
  "open_count n (s\<lparr>totalCreated := b\<rparr>) = open_count n s"
  "open_count n (s\<lparr>totalClosed := b\<rparr>) = open_count n s"
  "open_count n (s\<lparr>totalReconnects := b\<rparr>) = open_count n s"
  "open_count n (s\<lparr>createErrors := b\<rparr>) = open_count n s"
  "open_count n (s\<lparr>started := b\<rparr>) = open_count n s"
  "open_count n (s\<lparr>console := c\<rparr>) = open_count n s"
  by (simp_all add: open_count_def)

lemma open_count_nonneg: "0 \<le> open_count n s"
  unfolding open_count_def by (rule sum_nonneg) simp

lemma keys_map_entry: "map fst (AList.map_entry k f al) = map fst al"
  by (induction al) auto

lemma keys_delete: "fst ` set (AList.delete k al) = fst ` set al - {k}"
  by (induction al) auto

lemma registered_other [simp]:
  "registered (s\<lparr>loops := l\<rparr>) = registered s"
  "registered (s\<lparr>totalCreated := b\<rparr>) = registered s"
  "registered (s\<lparr>totalClosed := b\<rparr>) = registered s"
  "registered (s\<lparr>totalReconnects := b\<rparr>) = registered s"
  "registered (s\<lparr>createErrors := b\<rparr>) = registered s"
  "registered (s\<lparr>started := b\<rparr>) = registered s"
  "registered (s\<lparr>console := c\<rparr>) = registered s"
  by (simp_all add: registered_def)

lemma registered_set [simp]:
  "registered (s\<lparr>activeConsumers := AList.update k v (activeConsumers s)\<rparr>) =
     insert k (registered s)"
  by (simp add: registered_def dom_update)

lemma registered_delete [simp]:
  "registered (s\<lparr>activeConsumers := AList.delete k (activeConsumers s)\<rparr>) =
     registered s - {k}"
  by (simp add: registered_def keys_delete)

lemma registered_map_entry [simp]:
  "registered (s\<lparr>activeConsumers := AList.map_entry k f (activeConsumers s)\<rparr>) =
     registered s"
  using keys_map_entry [of k f "activeConsumers s"]
  by (simp add: registered_def flip: set_map)

lemma started_loop: "invariant n s \<Longrightarrow> loops s i \<noteq> NotStarted \<Longrightarrow> i < n"
  unfolding invariant_def by (metis not_le order.strict_trans2)

lemma invariant_init: "invariant n (init n)"
  by (simp add: invariant_def init_def open_count_def registered_def)

lemmas inv_simps = invariant_def createOrderedConsumer_info_def count_message_def open_count_upd distinct_update distinct_delete keys_map_entry

lemma invariant_step:
  assumes "invariant n s" and "step e s = Some s'"
  shows "invariant n s'"
proof (cases e)
  case (Start now)
  with assms show ?thesis
    by (auto simp: inv_simps split: if_splits)
next
  case (SubscribeOk i sub)
  with assms started_loop [OF assms(1), of i] show ?thesis
    by (auto simp: inv_simps split: location.splits if_splits)
next
  case (SubscribeFail i msg)
  with assms started_loop [OF assms(1), of i] show ?thesis
    by (auto simp: inv_simps split: location.splits if_splits)
next
  case (Resume i)
  with assms started_loop [OF assms(1), of i] show ?thesis
    by (auto simp: inv_simps split: location.splits if_splits)
next
  case (LifetimeElapsed i)
  with assms started_loop [OF assms(1), of i] show ?thesis
        by (auto simp: inv_simps split: location.splits if_splits)
next
  case (Deliver i)
  with assms started_loop [OF assms(1), of i] show ?thesis
       by (auto simp: inv_simps split: location.splits if_splits)
next
  case (DestroyOk i)
  with assms started_loop [OF assms(1), of i] show ?thesis
        by (auto simp: inv_simps split: location.splits if_splits)
next
  case (DestroyFail i)
  with assms started_loop [OF assms(1), of i] show ?thesis
    by (auto simp: inv_simps split: location.splits if_splits)
next
  case (CooldownElapsed i now)
  with assms started_loop [OF assms(1), of i] show ?thesis
       by (auto simp: inv_simps split: location.splits if_splits)
next
  case Tick
  with assms show ?thesis
    by (auto simp: inv_simps split: if_splits)
qed

lemma invariant_run:
  "run es s = Some s' \<Longrightarrow> invariant n s \<Longrightarrow> invariant n s'"
proof (induction es arbitrary: s)
  case Nil
  then show ?case by simp
next
  case (Cons e es)
  then show ?case by (auto split: option.splits dest: invariant_step)
qed

lemma invariant_reachable: "run es (init n) = Some s \<Longrightarrow> invariant n s"
  using invariant_run invariant_init by blast

lemma registered_card:
  assumes "invariant n s"
  shows "length (activeConsumers s) = card {i. in_registry (loops s i)}"
proof -
  have "registered s = consumer_id ` {i. in_registry (loops s i)}"
    using assms unfolding invariant_def by auto
  then have "card (registered s) = card {i. in_registry (loops s i)}"
    by (simp add: card_image inj_consumer_id)
  moreover have "card (registered s) = length (activeConsumers s)"
    using assms distinct_card [of "map fst (activeConsumers s)"]
    unfolding invariant_def registered_def by simp
  ultimately show ?thesis by simp
qed

lemma in_registry_bounded:
  assumes "invariant n s"
  shows "{i. in_registry (loops s i)} \<subseteq> {..<n}"
proof
  fix i assume "i \<in> {i. in_registry (loops s i)}"
  then have "loops s i \<noteq> NotStarted" by auto
  with started_loop [OF assms] show "i \<in> {..<n}" by simp
qed

lemma registry_size: "invariant n s \<Longrightarrow> length (activeConsumers s) \<le> n"
  using registered_card [of n s] in_registry_bounded [of n s]
    card_mono [of "{..<n}" "{i. in_registry (loops s i)}"]
  by simp

lemma registry_count:
  assumes "invariant n s"
  shows "int (length (activeConsumers s)) = (\<Sum>i<n. of_bool (in_registry (loops s i)))"
proof -
  have "{i. in_registry (loops s i)} = {..<n} \<inter> {i. in_registry (loops s i)}"
    using in_registry_bounded [OF assms] by auto
  then show ?thesis using registered_card [OF assms] by simp
qed

text \<open>
  Claim C5. In every state of every interleaving of \<open>n\<close> consumer loops,
  \<^verbatim>\<open>activeConsumers\<close> has at most \<open>n\<close> entries, and no two of them have the same key.
\<close>

theorem registry_bounded:
  "run es (init n) = Some s \<Longrightarrow>
   length (activeConsumers s) \<le> n \<and> distinct (map fst (activeConsumers s))"
  using invariant_reachable [of es n s] registry_size [of n s]
  by (simp add: invariant_def)

text \<open>Two loops, both with a registered subscription: two entries.\<close>

theorem registry_bounded_witness:
  "run [Start 0, Start 5, SubscribeOk 0 7, Resume 0, SubscribeOk 1 8, Resume 1] (init 2) \<noteq> None
   \<and> length (activeConsumers (the (run [Start 0, Start 5, SubscribeOk 0 7, Resume 0,
        SubscribeOk 1 8, Resume 1] (init 2)))) = 2
   \<and> length (activeConsumers (the (run [Start 0, Start 5, SubscribeOk 0 7, Resume 0,
        SubscribeOk 1 8, Resume 1] (init 2)))) \<le> 2
   \<and> distinct (map fst (activeConsumers (the (run [Start 0, Start 5, SubscribeOk 0 7, Resume 0,
        SubscribeOk 1 8, Resume 1] (init 2)))))"
proof -
  let ?es = "[Start 0, Start 5, SubscribeOk 0 7, Resume 0, SubscribeOk 1 8, Resume 1]"
  have r: "run ?es (init 2) = Some (the (run ?es (init 2)))"
    by (simp add: init_def)
  have l: "length (activeConsumers (the (run ?es (init 2)))) = 2"
    by (simp add: init_def consumer_id_def toString.simps digit_def)
  have "run ?es (init 2) \<noteq> None" by (simp add: init_def)
  with l registry_bounded [OF r] show ?thesis by blast
qed

text \<open>
  Claim C6. In every state of every interleaving, \<^verbatim>\<open>totalClosed\<close> is at most
  \<^verbatim>\<open>totalCreated\<close>.
\<close>

theorem closed_le_created:
  "run es (init n) = Some s \<Longrightarrow> totalClosed s \<le> totalCreated s"
  using invariant_reachable [of es n s] open_count_nonneg [of n s]
  by (simp add: invariant_def)

text \<open>One subscription created and destroyed: both counters are 1.\<close>

theorem closed_le_created_witness:
  "run [Start 0, SubscribeOk 0 7, Resume 0, LifetimeElapsed 0, DestroyOk 0] (init 1) \<noteq> None
   \<and> totalClosed (the (run [Start 0, SubscribeOk 0 7, Resume 0, LifetimeElapsed 0, DestroyOk 0]
        (init 1))) = 1
   \<and> totalClosed (the (run [Start 0, SubscribeOk 0 7, Resume 0, LifetimeElapsed 0, DestroyOk 0]
        (init 1)))
     \<le> totalCreated (the (run [Start 0, SubscribeOk 0 7, Resume 0, LifetimeElapsed 0, DestroyOk 0]
        (init 1)))"
proof -
  let ?es = "[Start 0, SubscribeOk 0 7, Resume 0, LifetimeElapsed 0, DestroyOk 0]"
  have r: "run ?es (init 1) = Some (the (run ?es (init 1)))"
    by (simp add: init_def)
  have l: "totalClosed (the (run ?es (init 1))) = 1"
    by (simp add: init_def)
  have "run ?es (init 1) \<noteq> None" by (simp add: init_def)
  with l closed_le_created [OF r] show ?thesis by blast
qed

subsection \<open>Runs without failures\<close>

lemma quiescent_leak:
  assumes "invariant n s" and "clean n s" and "quiescent s"
  shows "leaked (printStats s) = 0"
proof -
  have n: "NUM_CONSUMERS s = n" using assms(1) by (simp add: invariant_def)
  have q: "\<not> microtask_pending (loops s i)" if "i < n" for i
    using assms(3) that n by (simp add: quiescent_def list_all_iff)
  have "holds_subscription (loops s i) = in_registry (loops s i)" if "i < n" for i
    using assms(1,2) q [OF that] unfolding invariant_def clean_def
    by (cases "loops s i") auto
  then have "open_count n s = (\<Sum>i<n. of_bool (in_registry (loops s i)))"
    unfolding open_count_def by (intro sum.cong) simp_all
  with registry_count [OF assms(1)] assms(2) show ?thesis
    by (simp add: printStats_def clean_def)
qed

lemma clean_init: "clean n (init n)"
  by (simp add: clean_def init_def open_count_def)

lemma clean_step:
  assumes "invariant n s" and "clean n s" and "\<not> failure e" and "step e s = Some s'"
  shows "clean n s'"
proof (cases e)
  case (Start now)
  with assms show ?thesis
    by (auto simp: clean_def inv_simps split: if_splits)
next
  case (SubscribeOk i sub)
  with assms started_loop [OF assms(1), of i] show ?thesis
    by (auto simp: clean_def inv_simps split: location.splits if_splits)
next
  case (SubscribeFail i msg)
  with assms show ?thesis by simp
next
  case (Resume i)
  with assms started_loop [OF assms(1), of i] show ?thesis
    by (auto simp: clean_def inv_simps split: location.splits if_splits)
next
  case (LifetimeElapsed i)
  with assms started_loop [OF assms(1), of i] show ?thesis
    by (auto simp: clean_def inv_simps split: location.splits if_splits)
next
  case (Deliver i)
  with assms started_loop [OF assms(1), of i] show ?thesis
    by (auto simp: clean_def inv_simps split: location.splits if_splits)
next
  case (DestroyOk i)
  with assms started_loop [OF assms(1), of i] show ?thesis
    by (auto simp: clean_def inv_simps split: location.splits if_splits)
next
  case (DestroyFail i)
  with assms show ?thesis by simp
next
  case (CooldownElapsed i now)
  with assms started_loop [OF assms(1), of i] show ?thesis
    by (auto simp: clean_def inv_simps split: location.splits if_splits)
next
  case Tick
  with assms quiescent_leak [OF assms(1,2)] show ?thesis
    by (auto simp: clean_def open_count_def split: if_splits)
qed

lemma clean_run:
  "run es s = Some s' \<Longrightarrow> list_all (\<lambda>e. \<not> failure e) es \<Longrightarrow> invariant n s \<Longrightarrow> clean n s
   \<Longrightarrow> clean n s'"
proof (induction es arbitrary: s)
  case Nil
  then show ?case by simp
next
  case (Cons e es)
  then show ?case
    by (auto split: option.splits dest: invariant_step clean_step)
qed

text \<open>
  Claim C7. In a run in which no \<^verbatim>\<open>js.subscribe\<close> and no \<^verbatim>\<open>destroy()\<close> fails, every
  report that \<^verbatim>\<open>printStats\<close> has printed shows
  \<^verbatim>\<open>totalCreated - totalClosed - activeConsumers.size = 0\<close>.
\<close>

theorem no_leak_reported:
  "run es (init n) = Some s \<Longrightarrow> list_all (\<lambda>e. \<not> failure e) es \<Longrightarrow>
   \<forall>st. StatsLog st \<in> set (console s) \<longrightarrow> leaked st = 0"
proof -
  assume r: "run es (init n) = Some s" and a: "list_all (\<lambda>e. \<not> failure e) es"
  have "clean n s" using clean_run [OF r a invariant_init clean_init] .
  then show ?thesis unfolding clean_def by blast
qed

text \<open>One loop, and a report printed while its subscription is open.\<close>

theorem no_leak_reported_witness:
  "list_all (\<lambda>e. \<not> failure e) [Start 0, SubscribeOk 0 7, Resume 0, Tick]
   \<and> console (the (run [Start 0, SubscribeOk 0 7, Resume 0, Tick] (init 1))) =
       [StatsLog (printStats (the (run [Start 0, SubscribeOk 0 7, Resume 0] (init 1))))]
   \<and> stat_active (printStats (the (run [Start 0, SubscribeOk 0 7, Resume 0] (init 1)))) = 1
   \<and> stat_created (printStats (the (run [Start 0, SubscribeOk 0 7, Resume 0] (init 1)))) = 1
   \<and> stat_closed (printStats (the (run [Start 0, SubscribeOk 0 7, Resume 0] (init 1)))) = 0
   \<and> leaked (printStats (the (run [Start 0, SubscribeOk 0 7, Resume 0] (init 1)))) = 0"
proof -
  let ?es = "[Start 0, SubscribeOk 0 7, Resume 0, Tick]"
  let ?st = "printStats (the (run [Start 0, SubscribeOk 0 7, Resume 0] (init 1)))"
  have r: "run ?es (init 1) = Some (the (run ?es (init 1)))"
    by (simp add: init_def quiescent_def)
  have a: "list_all (\<lambda>e. \<not> failure e) ?es" by simp
  have c: "console (the (run ?es (init 1))) = [StatsLog ?st]"
    by (simp add: init_def quiescent_def)
  have v: "stat_active ?st = 1" "stat_created ?st = 1" "stat_closed ?st = 0"
    by (simp_all add: init_def printStats_def consumer_id_def)
  from no_leak_reported [OF r a] c have "leaked ?st = 0" by simp
  with a c v show ?thesis by blast
qed

subsection \<open>Destroying\<close>

text \<open>
  Claim C2. A step changes \<^verbatim>\<open>totalClosed\<close> exactly when it is the normal return of
  \<^verbatim>\<open>destroy()\<close>, and then by one; when \<^verbatim>\<open>destroy()\<close> raises, the counter keeps its
  value. Either outcome belongs to a loop that awaits \<^verbatim>\<open>destroy()\<close> on an existing
  subscription.
\<close>

theorem totalClosed_step:
  "run es (init n) = Some s \<Longrightarrow> step e s = Some s' \<Longrightarrow>
   totalClosed s' = (if \<exists>i. e = DestroyOk i then totalClosed s + 1 else totalClosed s)
   \<and> (\<forall>i. e = DestroyOk i \<or> e = DestroyFail i \<longrightarrow>
        (\<exists>info sub. loops s i = Destroying info \<and> subscription info = Some sub))"
proof -
  assume r: "run es (init n) = Some s" and st: "step e s = Some s'"
  have d: "\<forall>i info. loops s i = Destroying info \<longrightarrow> subscription info \<noteq> None"
    using invariant_reachable [OF r] by (simp add: invariant_def)
  show ?thesis
    using st d by (cases e) (auto split: location.splits if_splits)
qed

text \<open>The two outcomes of \<^verbatim>\<open>destroy()\<close> for one created subscription.\<close>

theorem totalClosed_step_witness:
  "totalClosed (the (step (DestroyOk 0)
       (the (run [Start 0, SubscribeOk 0 7, Resume 0, LifetimeElapsed 0] (init 1))))) =
     totalClosed (the (run [Start 0, SubscribeOk 0 7, Resume 0, LifetimeElapsed 0] (init 1))) + 1
   \<and> totalClosed (the (step (DestroyFail 0)
       (the (run [Start 0, SubscribeOk 0 7, Resume 0, LifetimeElapsed 0] (init 1))))) =
     totalClosed (the (run [Start 0, SubscribeOk 0 7, Resume 0, LifetimeElapsed 0] (init 1)))"
proof -
  let ?es = "[Start 0, SubscribeOk 0 7, Resume 0, LifetimeElapsed 0]"
  have r: "run ?es (init 1) = Some (the (run ?es (init 1)))"
    by (simp add: init_def)
  have ok: "step (DestroyOk 0) (the (run ?es (init 1))) =
      Some (the (step (DestroyOk 0) (the (run ?es (init 1)))))"
    by (simp add: init_def)
  have fail: "step (DestroyFail 0) (the (run ?es (init 1))) =
      Some (the (step (DestroyFail 0) (the (run ?es (init 1)))))"
    by (simp add: init_def)
  from totalClosed_step [OF r ok] totalClosed_step [OF r fail] show ?thesis by simp
qed

text \<open>
  Claim C1 fails on the code. A subscription is created and registered and its lifetime
  ends; \<^verbatim>\<open>destroy()\<close> raises. The cycle goes on and the entry is removed, but
  \<^verbatim>\<open>totalClosed\<close> is still 0 while \<^verbatim>\<open>totalCreated\<close> is 1.
\<close>

theorem destroy_failure_not_counted:
  "map_option totalClosed
     (run [Start 0, SubscribeOk 0 7, Resume 0, LifetimeElapsed 0] (init 1)) = Some 0
   \<and> map_option totalCreated
     (run [Start 0, SubscribeOk 0 7, Resume 0, LifetimeElapsed 0] (init 1)) = Some 1
   \<and> map_option totalClosed
     (run [Start 0, SubscribeOk 0 7, Resume 0, LifetimeElapsed 0, DestroyFail 0] (init 1)) =
       Some 0
   \<and> map_option totalClosed
     (run [Start 0, SubscribeOk 0 7, Resume 0, LifetimeElapsed 0, DestroyFail 0, Resume 0]
        (init 1)) = Some 0
   \<and> map_option activeConsumers
     (run [Start 0, SubscribeOk 0 7, Resume 0, LifetimeElapsed 0, DestroyFail 0, Resume 0]
        (init 1)) = Some []"
  by (simp add: init_def consumer_id_def toString.simps digit_def consumer_subject_def
      SUBJECTS_def createOrderedConsumer_info_def)

text \<open>
  Claim C1, amended. For a loop that awaits \<^verbatim>\<open>destroy()\<close>, the entry of its id is in
  \<^verbatim>\<open>activeConsumers\<close>, and whether \<^verbatim>\<open>destroy()\<close> returns or raises the loop goes on
  and removes that entry; \<^verbatim>\<open>totalClosed\<close> is incremented when \<^verbatim>\<open>destroy()\<close>
  returns normally and keeps its value when it raises.
\<close>

theorem destroying_outcome:
  "run es (init n) = Some s \<Longrightarrow> loops s i = Destroying info \<Longrightarrow>
   map_of (activeConsumers s) (consumer_id i) \<noteq> None
   \<and> (\<exists>s'. run [DestroyOk i, Resume i] s = Some s'
          \<and> map_of (activeConsumers s') (consumer_id i) = None
          \<and> totalClosed s' = totalClosed s + 1)
   \<and> (\<exists>s'. run [DestroyFail i, Resume i] s = Some s'
          \<and> map_of (activeConsumers s') (consumer_id i) = None
          \<and> totalClosed s' = totalClosed s)"
proof -
  assume r: "run es (init n) = Some s" and l: "loops s i = Destroying info"
  have "consumer_id i \<in> registered s"
    using invariant_reachable [OF r] l by (simp add: invariant_def)
  then have "map_of (activeConsumers s) (consumer_id i) \<noteq> None"
    by (simp add: registered_def map_of_eq_None_iff)
  with l show ?thesis by (simp add: delete_conv')
qed

text \<open>Both outcomes for the first subscription of a single loop.\<close>

theorem destroying_outcome_witness:
  "map_of (activeConsumers (the (run [Start 0, SubscribeOk 0 7, Resume 0, LifetimeElapsed 0]
      (init 1)))) (consumer_id 0) \<noteq> None
   \<and> (\<exists>s'. run [DestroyOk 0, Resume 0]
          (the (run [Start 0, SubscribeOk 0 7, Resume 0, LifetimeElapsed 0] (init 1))) = Some s'
        \<and> map_of (activeConsumers s') (consumer_id 0) = None
        \<and> totalClosed s' =
            totalClosed (the (run [Start 0, SubscribeOk 0 7, Resume 0, LifetimeElapsed 0]
              (init 1))) + 1)
   \<and> (\<exists>s'. run [DestroyFail 0, Resume 0]
          (the (run [Start 0, SubscribeOk 0 7, Resume 0, LifetimeElapsed 0] (init 1))) = Some s'
        \<and> map_of (activeConsumers s') (consumer_id 0) = None
        \<and> totalClosed s' =
            totalClosed (the (run [Start 0, SubscribeOk 0 7, Resume 0, LifetimeElapsed 0]
              (init 1))))"
proof -
  let ?es = "[Start 0, SubscribeOk 0 7, Resume 0, LifetimeElapsed 0]"
  have r: "run ?es (init 1) = Some (the (run ?es (init 1)))"
    by (simp add: init_def)
  have l: "loops (the (run ?es (init 1))) 0 =
      Destroying (createOrderedConsumer_info (consumer_id 0) (consumer_subject 0) 0
        \<lparr>subscription := Some 7\<rparr>)"
    by (simp add: init_def createOrderedConsumer_info_def)
  from destroying_outcome [OF r l] show ?thesis .
qed

subsection \<open>A failed create\<close>

lemma created_null_enabled:
  "loops t i = Created info \<Longrightarrow> subscription info = None \<Longrightarrow> loop_of e = Some i \<Longrightarrow>
   step e t \<noteq> None \<Longrightarrow> e = Resume i"
  by (cases e) (auto split: location.splits if_splits)

lemma running_null_enabled:
  "loops t i = Running info \<Longrightarrow> subscription info = None \<Longrightarrow> loop_of e = Some i \<Longrightarrow>
   step e t \<noteq> None \<Longrightarrow> e = LifetimeElapsed i"
  by (cases e) (auto split: location.splits if_splits)

lemma closed_null_enabled:
  "loops t i = Closed info \<Longrightarrow> subscription info = None \<Longrightarrow> loop_of e = Some i \<Longrightarrow>
   step e t \<noteq> None \<Longrightarrow> e = Resume i"
  by (cases e) (auto split: location.splits if_splits)

lemma cooldown_enabled:
  "loops t i = Cooldown \<Longrightarrow> loop_of e = Some i \<Longrightarrow> step e t \<noteq> None \<Longrightarrow>
   \<exists>now. e = CooldownElapsed i now"
  by (cases e) (auto split: location.splits if_splits)

text \<open>
  Claim C4. When \<^verbatim>\<open>js.subscribe\<close> fails for a loop, \<^verbatim>\<open>createErrors\<close> is incremented
  and \<^verbatim>\<open>totalCreated\<close> is not; a line is logged only when the new value of
  \<^verbatim>\<open>createErrors\<close> is 1 modulo 10; the \<^verbatim>\<open>info\<close> of the cycle has no subscription;
  and the loop goes through the lifetime sleep and the close to the cooldown sleep
  without a call of \<^verbatim>\<open>destroy()\<close> and with both counters of subscriptions unchanged.
  At each of these points the only event of the loop that can happen is the next one
  of this path, so the next \<^verbatim>\<open>js.subscribe\<close> comes after both sleeps only.
\<close>

theorem create_failure_cycle:
  assumes "run es (init n) = Some s" and "loops s i = Creating info"
  shows "(\<exists>s1 s2 s3 s4.
     step (SubscribeFail i msg) s = Some s1
     \<and> createErrors s1 = createErrors s + 1
     \<and> totalCreated s1 = totalCreated s
     \<and> console s1 = console s @
          (if (createErrors s + 1) mod 10 = 1 then [CreateErrorLog (createErrors s + 1) msg]
           else [])
     \<and> loops s1 i = Created info \<and> subscription info = None
     \<and> step (Resume i) s1 = Some s2 \<and> loops s2 i = Running info
     \<and> step (LifetimeElapsed i) s2 = Some s3 \<and> loops s3 i = Closed info
     \<and> step (Resume i) s3 = Some s4 \<and> loops s4 i = Cooldown
     \<and> totalCreated s4 = totalCreated s \<and> totalClosed s4 = totalClosed s
     \<and> createErrors s4 = createErrors s + 1)
     \<and> (\<forall>e t. loop_of e = Some i \<and> step e t \<noteq> None \<longrightarrow>
           (loops t i = Created info \<longrightarrow> e = Resume i)
           \<and> (loops t i = Running info \<longrightarrow> e = LifetimeElapsed i)
           \<and> (loops t i = Closed info \<longrightarrow> e = Resume i)
           \<and> (loops t i = Cooldown \<longrightarrow> (\<exists>now. e = CooldownElapsed i now)))"
proof -
  have null: "subscription info = None"
    using invariant_reachable [OF assms(1)] assms(2) by (simp add: invariant_def)
  have en: "\<forall>e t. loop_of e = Some i \<and> step e t \<noteq> None \<longrightarrow>
           (loops t i = Created info \<longrightarrow> e = Resume i)
           \<and> (loops t i = Running info \<longrightarrow> e = LifetimeElapsed i)
           \<and> (loops t i = Closed info \<longrightarrow> e = Resume i)
           \<and> (loops t i = Cooldown \<longrightarrow> (\<exists>now. e = CooldownElapsed i now))"
    using null created_null_enabled running_null_enabled closed_null_enabled cooldown_enabled
    by blast
  have ex: "\<exists>s1 s2 s3 s4.
     step (SubscribeFail i msg) s = Some s1
     \<and> createErrors s1 = createErrors s + 1
     \<and> totalCreated s1 = totalCreated s
     \<and> console s1 = console s @
          (if (createErrors s + 1) mod 10 = 1 then [CreateErrorLog (createErrors s + 1) msg]
           else [])
     \<and> loops s1 i = Created info \<and> subscription info = None
     \<and> step (Resume i) s1 = Some s2 \<and> loops s2 i = Running info
     \<and> step (LifetimeElapsed i) s2 = Some s3 \<and> loops s3 i = Closed info
     \<and> step (Resume i) s3 = Some s4 \<and> loops s4 i = Cooldown
     \<and> totalCreated s4 = totalCreated s \<and> totalClosed s4 = totalClosed s
     \<and> createErrors s4 = createErrors s + 1"
    using assms(2) null by simp
  from ex en show ?thesis by (rule conjI)
qed

text \<open>The first create of a single loop fails: it is the first error, so it is logged.\<close>

theorem create_failure_cycle_witness:
  "\<exists>s1 s2 s3 s4.
     step (SubscribeFail 0 ''timeout'') (the (run [Start 3] (init 1))) = Some s1
     \<and> createErrors s1 = createErrors (the (run [Start 3] (init 1))) + 1
     \<and> totalCreated s1 = totalCreated (the (run [Start 3] (init 1)))
     \<and> console s1 = [CreateErrorLog 1 ''timeout'']
     \<and> step (Resume 0) s1 = Some s2
     \<and> step (LifetimeElapsed 0) s2 = Some s3
     \<and> step (Resume 0) s3 = Some s4 \<and> loops s4 0 = Cooldown
     \<and> totalCreated s4 = 0 \<and> totalClosed s4 = 0 \<and> createErrors s4 = 1"
proof -
  have r: "run [Start 3] (init 1) = Some (the (run [Start 3] (init 1)))"
    by (simp add: init_def)
  have l: "loops (the (run [Start 3] (init 1))) 0 =
      Creating (createOrderedConsumer_info (consumer_id 0) (consumer_subject 0) 3)"
    by (simp add: init_def)
  have c: "console (the (run [Start 3] (init 1))) = []"
    "createErrors (the (run [Start 3] (init 1))) = 0"
    "totalCreated (the (run [Start 3] (init 1))) = 0"
    "totalClosed (the (run [Start 3] (init 1))) = 0"
    by (simp_all add: init_def)
  from create_failure_cycle [OF r l, of "''timeout''", THEN conjunct1]
  obtain s1 s2 s3 s4 where
    "step (SubscribeFail 0 ''timeout'') (the (run [Start 3] (init 1))) = Some s1"
    "createErrors s1 = createErrors (the (run [Start 3] (init 1))) + 1"
    "totalCreated s1 = totalCreated (the (run [Start 3] (init 1)))"
    "console s1 = console (the (run [Start 3] (init 1))) @
          (if (createErrors (the (run [Start 3] (init 1))) + 1) mod 10 = 1
           then [CreateErrorLog (createErrors (the (run [Start 3] (init 1))) + 1) ''timeout'']
           else [])"
    "step (Resume 0) s1 = Some s2"
    "step (LifetimeElapsed 0) s2 = Some s3"
    "step (Resume 0) s3 = Some s4" "loops s4 0 = Cooldown"
    "totalCreated s4 = totalCreated (the (run [Start 3] (init 1)))"
    "totalClosed s4 = totalClosed (the (run [Start 3] (init 1)))"
    "createErrors s4 = createErrors (the (run [Start 3] (init 1))) + 1"
    by blast
  then show ?thesis unfolding c by (intro exI [of _ s1] exI [of _ s2] exI [of _ s3] exI [of _ s4]) simp
qed

text \<open>
  Claim C10. Two loops; the create of loop 1 succeeds and the create of loop 0 fails.
  The \<^verbatim>\<open>info\<close> of loop 0, with \<^verbatim>\<open>subscription = null\<close>, is stored in
  \<^verbatim>\<open>activeConsumers\<close> all the same: a report printed now shows two active consumers,
  one created, and a leak of \<open>-1\<close>. The entry is still there when the lifetime of loop 0
  has ended and is removed by the \<^verbatim>\<open>delete\<close> that follows \<^verbatim>\<open>closeConsumer\<close>.
\<close>

theorem failed_create_registered:
  "map_option activeConsumers
     (run [Start 0, Start 1, SubscribeOk 1 7, Resume 1, SubscribeFail 0 ''timeout'', Resume 0]
        (init 2)) =
     Some [(''consumer_1'', \<lparr>id_field = ''consumer_1'', subject = ''events.sensor.station2.>'',
              createdAt = 1, subscription = Some 7, messageCount = 0\<rparr>),
           (''consumer_0'', \<lparr>id_field = ''consumer_0'', subject = ''events.sensor.station1.>'',
              createdAt = 0, subscription = None, messageCount = 0\<rparr>)]
   \<and> map_option console
     (run [Start 0, Start 1, SubscribeOk 1 7, Resume 1, SubscribeFail 0 ''timeout'', Resume 0,
           Tick] (init 2)) =
     Some [CreateErrorLog 1 ''timeout'',
           StatsLog \<lparr>stat_active = 2, stat_created = 1, stat_closed = 0, stat_reconnects = 0,
                      stat_createErrors = 1, leaked = - 1\<rparr>]
   \<and> map_option activeConsumers
     (run [Start 0, Start 1, SubscribeOk 1 7, Resume 1, SubscribeFail 0 ''timeout'', Resume 0,
           Tick, LifetimeElapsed 0] (init 2)) =
     Some [(''consumer_1'', \<lparr>id_field = ''consumer_1'', subject = ''events.sensor.station2.>'',
              createdAt = 1, subscription = Some 7, messageCount = 0\<rparr>),
           (''consumer_0'', \<lparr>id_field = ''consumer_0'', subject = ''events.sensor.station1.>'',
              createdAt = 0, subscription = None, messageCount = 0\<rparr>)]
   \<and> map_option activeConsumers
     (run [Start 0, Start 1, SubscribeOk 1 7, Resume 1, SubscribeFail 0 ''timeout'', Resume 0,
           Tick, LifetimeElapsed 0, Resume 0] (init 2)) =
     Some [(''consumer_1'', \<lparr>id_field = ''consumer_1'', subject = ''events.sensor.station2.>'',
              createdAt = 1, subscription = Some 7, messageCount = 0\<rparr>)]"
  by (simp add: init_def consumer_id_def toString.simps digit_def consumer_subject_def
      SUBJECTS_def createOrderedConsumer_info_def quiescent_def printStats_def list_all_iff)

end
